theory Spec2Isabelle
  imports Complex_Main
begin

section \<open>The path-data parser of svgparser.py\<close>

text \<open>
  The module scans the \<open>d\<close> attribute of an SVG path element with a cursor \<open>pos\<close> into
  the immutable string \<open>d\<close> and returns a list of \<open>PathCommand\<close> objects. The embedding
  keeps the module's names. A Python string is a \<open>string\<close>, one \<open>char\<close> for each
  character of the Python string; the cursor is a \<open>nat\<close> (the module never makes it
  negative); every exception is a value of type \<open>error\<close>, so a function that may raise
  returns \<open>error + 'a\<close>.
\<close>

subsection \<open>Module constants\<close>

definition sep_chars :: string where
  "sep_chars = [CHR '' '', CHR '','', CHR 0x0A]"

definition minus_sign :: char where
  "minus_sign = CHR ''-''"

definition decimal_point :: char where
  "decimal_point = CHR ''.''"

definition numbers :: string where
  "numbers = ''0123456789''"

definition numberic_chars :: string where
  "numberic_chars = numbers @ [minus_sign] @ [decimal_point]"

definition moveto_absolute :: char where
  "moveto_absolute = CHR ''M''"

definition moveto_relative :: char where
  "moveto_relative = CHR ''m''"

definition moveto_commands :: string where
  "moveto_commands = [moveto_absolute] @ [moveto_relative]"

definition curveto_absolute :: char where
  "curveto_absolute = CHR ''C''"

definition curveto_relative :: char where
  "curveto_relative = CHR ''c''"

definition curveto_commands :: string where
  "curveto_commands = [curveto_absolute] @ [curveto_relative]"

definition smooth_curveto_absolute :: char where
  "smooth_curveto_absolute = CHR ''S''"

definition smooth_curveto_relative :: char where
  "smooth_curveto_relative = CHR ''s''"

definition smooth_curveto_commands :: string where
  "smooth_curveto_commands = [smooth_curveto_absolute] @ [smooth_curveto_relative]"

definition commands :: string where
  "commands = moveto_commands @ curveto_commands @ smooth_curveto_commands"

subsection \<open>Exceptions\<close>

text \<open>
  The module raises \<open>Exception\<close> with four different messages; each is a constructor that
  carries what the message quotes (the message also quotes the whole input \<open>d\<close>, which
  is the argument of the call). \<open>IndexError\<close> is what Python itself raises when
  \<open>d[pos]\<close> is evaluated with \<open>pos\<close> not below \<open>len(d)\<close>, and \<open>ValueError\<close> what
  \<open>int\<close> and \<open>float\<close> raise on a string they cannot read.
  \<^item> \<open>EmptyInput\<close>: \<^verbatim>\<open>Cannot parse empty string!\<close>
  \<^item> \<open>UnexpectedChar c pos\<close>: \<^verbatim>\<open>Unexpected {repr(d[pos])} at {pos} in {repr(d)}!\<close>
  \<^item> \<open>UnexpectedEndOfData pos\<close>: \<^verbatim>\<open>Unexpected end of data at {pos} in {repr(d)}!\<close>
  \<^item> \<open>UnsupportedCommand c pos\<close>: \<^verbatim>\<open>Unsupported command {c} at {pos} in {repr(d)}!\<close>
\<close>

datatype error =
    EmptyInput
  | UnexpectedChar char nat
  | UnexpectedEndOfData nat
  | UnsupportedCommand char nat
  | IndexError
  | ValueError

text \<open>
  \<open>raise_unexpected_char\<close> builds its message from \<open>d[pos]\<close>: called with a position at
  or behind the end of \<open>d\<close>, the indexing raises before the message exists.
\<close>

definition raise_unexpected_char :: "string \<Rightarrow> nat \<Rightarrow> error + 'a" where
  "raise_unexpected_char d pos =
     (if pos < length d then Inl (UnexpectedChar (d ! pos) pos) else Inl IndexError)"

definition raise_unexpected_end_of_data :: "string \<Rightarrow> nat \<Rightarrow> error + 'a" where
  "raise_unexpected_end_of_data d pos = Inl (UnexpectedEndOfData pos)"

subsection \<open>Numeric values\<close>

text \<open>
  A parsed number is a Python \<open>int\<close> or a Python \<open>float\<close>. \<open>IntV\<close> carries the
  (unbounded) integer. \<open>FloatV\<close> carries the exact decimal value of the literal as a
  rational; Python rounds that value to the nearest binary64 number, a step the
  embedding leaves out (it changes nothing for dyadic values such as 1.5 or 2.25).
\<close>

datatype number = IntV int | FloatV rat

text \<open>The slice \<open>d[a:b]\<close> for cursors \<open>a\<close>, \<open>b\<close> that are not negative.\<close>

definition slice :: "string \<Rightarrow> nat \<Rightarrow> nat \<Rightarrow> string" where
  "slice d a b = take (b - a) (drop a d)"

definition digit_val :: "char \<Rightarrow> nat" where
  "digit_val c = of_char c - 48"

definition digits_val :: "string \<Rightarrow> nat" where
  "digits_val s = foldl (\<lambda>n c. 10 * n + digit_val c) 0 s"

definition all_digits :: "string \<Rightarrow> bool" where
  "all_digits s = list_all (\<lambda>c. c \<in> set numbers) s"

text \<open>
  Python's \<open>int(s)\<close> and \<open>float(s)\<close> on the strings \<open>parse_number\<close> hands them: an
  optional minus sign and decimal digits, for \<open>float\<close> with one decimal point among
  the digits. Leading zeros are read as in Python (\<open>int('007')\<close> is 7). On any other
  string the model answers \<open>ValueError\<close>; the builtins accept more than this shape
  (surrounding blanks, a plus sign, exponents), which the parser never passes.
  Interpreter limits on the length of a converted integer literal are not modelled.
\<close>

definition py_int :: "string \<Rightarrow> error + int" where
  "py_int s =
     (let neg = (s \<noteq> [] \<and> hd s = minus_sign);
          ds = (if neg then tl s else s)
      in if ds \<noteq> [] \<and> all_digits ds
         then Inr (if neg then - int (digits_val ds) else int (digits_val ds))
         else Inl ValueError)"

definition py_float :: "string \<Rightarrow> error + rat" where
  "py_float s =
     (let neg = (s \<noteq> [] \<and> hd s = minus_sign);
          body = (if neg then tl s else s);
          ip = takeWhile (\<lambda>c. c \<noteq> decimal_point) body;
          fp = drop (length ip + 1) body
      in if length ip < length body \<and> all_digits ip \<and> all_digits fp \<and> (ip \<noteq> [] \<or> fp \<noteq> [])
         then let m = of_nat (digits_val (ip @ fp)) / (10 ^ length fp)
              in Inr (if neg then - m else m)
         else Inl ValueError)"

subsection \<open>Scanners\<close>

function skip_seps :: "string \<Rightarrow> nat \<Rightarrow> nat" where
  "skip_seps d pos =
     (if pos < length d
      then (if d ! pos \<in> set sep_chars then skip_seps d (pos + 1) else pos)
      else pos)"
  by pat_completeness auto
termination
  by (relation "measure (\<lambda>(d, pos). length d - pos)") auto

declare skip_seps.simps [simp del]

function skip_numbers :: "string \<Rightarrow> nat \<Rightarrow> nat" where
  "skip_numbers d pos =
     (if pos < length d
      then (if d ! pos \<in> set numbers then skip_numbers d (pos + 1) else pos)
      else pos)"
  by pat_completeness auto
termination
  by (relation "measure (\<lambda>(d, pos). length d - pos)") auto

declare skip_numbers.simps [simp del]

text \<open>
  \<open>parse_number\<close>, statement by statement. The two reads \<open>d[pos]\<close> that follow a
  \<open>pos += 1\<close> (behind the minus sign and behind the decimal point) are not guarded by a
  comparison with \<open>len(d)\<close> in the source, so they raise \<open>IndexError\<close> at the end of
  the string.
\<close>

definition parse_number :: "string \<Rightarrow> nat \<Rightarrow> error + (nat \<times> number)" where
  "parse_number d pos0 =
     (let d_length = length d;
          pos = skip_seps d pos0
      in if \<not> pos < d_length then raise_unexpected_end_of_data d pos
         else if d ! pos \<notin> set numberic_chars then raise_unexpected_char d pos
         else
           let number_start_pos = pos;
               pos = (if d ! pos = minus_sign then pos + 1 else pos)
           in if \<not> pos < d_length then Inl IndexError
              else if d ! pos \<notin> set numbers then raise_unexpected_char d pos
              else
                let pos = skip_numbers d pos
                in if pos < d_length \<and> d ! pos = decimal_point
                   then
                     let pos = pos + 1
                     in if \<not> pos < d_length then Inl IndexError
                        else if d ! pos \<notin> set numbers then raise_unexpected_char d pos
                        else
                          let pos = skip_numbers d pos
                          in (case py_float (slice d number_start_pos pos) of
                                Inl e \<Rightarrow> Inl e
                              | Inr v \<Rightarrow> Inr (pos, FloatV v))
                   else (case py_int (slice d number_start_pos pos) of
                           Inl e \<Rightarrow> Inl e
                         | Inr v \<Rightarrow> Inr (pos, IntV v)))"

definition parse_cooridate :: "string \<Rightarrow> nat \<Rightarrow> error + (nat \<times> number \<times> number)" where
  "parse_cooridate d pos0 =
     (let d_length = length d
      in case parse_number d pos0 of
           Inl e \<Rightarrow> Inl e
         | Inr (pos, x) \<Rightarrow>
             let pos = skip_seps d pos
             in if \<not> pos < d_length then raise_unexpected_end_of_data d pos
                else
                  let pos = skip_seps d pos
                  in (case parse_number d pos of
                        Inl e \<Rightarrow> Inl e
                      | Inr (pos, y) \<Rightarrow> Inr (pos, (x, y))))"

subsection \<open>Commands\<close>

text \<open>The class \<open>PathCommand\<close>; the tuple \<open>args\<close> is the list of its components.\<close>

record PathCommand =
  command :: char
  args :: "number list"

definition parse_command :: "char \<Rightarrow> string \<Rightarrow> nat \<Rightarrow> error + (nat \<times> PathCommand)" where
  "parse_command c d pos0 =
     (if c \<in> set moveto_commands then
        (case parse_cooridate d pos0 of
           Inl e \<Rightarrow> Inl e
         | Inr (pos, (x, y)) \<Rightarrow> Inr (pos, \<lparr>command = c, args = [x, y]\<rparr>))
      else if c \<in> set curveto_commands then
        (case parse_cooridate d pos0 of
           Inl e \<Rightarrow> Inl e
         | Inr (pos, (x1, y1)) \<Rightarrow>
             (case parse_cooridate d pos of
                Inl e \<Rightarrow> Inl e
              | Inr (pos, (x2, y2)) \<Rightarrow>
                  (case parse_cooridate d pos of
                     Inl e \<Rightarrow> Inl e
                   | Inr (pos, (x, y)) \<Rightarrow>
                       Inr (pos, \<lparr>command = c, args = [x1, y1, x2, y2, x, y]\<rparr>))))
      else if c \<in> set smooth_curveto_commands then
        (case parse_cooridate d pos0 of
           Inl e \<Rightarrow> Inl e
         | Inr (pos, (x2, y2)) \<Rightarrow>
             (case parse_cooridate d pos of
                Inl e \<Rightarrow> Inl e
              | Inr (pos, (x, y)) \<Rightarrow>
                  Inr (pos, \<lparr>command = c, args = [x2, y2, x, y]\<rparr>)))
      else Inl (UnsupportedCommand c pos0))"

subsection \<open>The cursor only moves forward\<close>

lemma skip_seps_ge: "pos \<le> skip_seps d pos"
proof (induction d pos rule: skip_seps.induct)
  case (1 d pos)
  show ?case
  proof (cases "pos < length d \<and> d ! pos \<in> set sep_chars")
    case True
    with "1.IH" have "pos + 1 \<le> skip_seps d (pos + 1)" by simp
    with True show ?thesis by (simp add: skip_seps.simps [of d pos])
  next
    case False
    then show ?thesis by (auto simp: skip_seps.simps [of d pos])
  qed
qed

lemma skip_numbers_ge: "pos \<le> skip_numbers d pos"
proof (induction d pos rule: skip_numbers.induct)
  case (1 d pos)
  show ?case
  proof (cases "pos < length d \<and> d ! pos \<in> set numbers")
    case True
    with "1.IH" have "pos + 1 \<le> skip_numbers d (pos + 1)" by simp
    with True show ?thesis by (simp add: skip_numbers.simps [of d pos])
  next
    case False
    then show ?thesis by (auto simp: skip_numbers.simps [of d pos])
  qed
qed

lemma skip_numbers_gt:
  assumes "pos < length d" and "d ! pos \<in> set numbers"
  shows "pos < skip_numbers d pos"
proof -
  have "pos + 1 \<le> skip_numbers d (pos + 1)" by (rule skip_numbers_ge)
  with assms show ?thesis by (simp add: skip_numbers.simps [of d pos])
qed

lemma parse_number_advances:
  assumes "parse_number d pos = Inr (pos', v)"
  shows "skip_seps d pos < pos'"
proof -
  define s where "s = skip_seps d pos"
  define p1 where "p1 = (if d ! s = minus_sign then s + 1 else s)"
  have s_p1: "s \<le> p1" by (simp add: p1_def)
  from assms have ok: "p1 < length d" "d ! p1 \<in> set numbers"
    by (auto simp: parse_number_def Let_def s_def p1_def raise_unexpected_end_of_data_def
          raise_unexpected_char_def split: if_splits)
  then have p1_lt: "p1 < skip_numbers d p1" by (rule skip_numbers_gt)
  have p2_le: "skip_numbers d p1 + 1 \<le> skip_numbers d (skip_numbers d p1 + 1)"
    by (rule skip_numbers_ge)
  from assms have "pos' = skip_numbers d p1 \<or> pos' = skip_numbers d (skip_numbers d p1 + 1)"
    by (auto simp: parse_number_def Let_def s_def p1_def raise_unexpected_end_of_data_def
          raise_unexpected_char_def split: if_splits sum.splits)
  with s_p1 p1_lt p2_le show ?thesis unfolding s_def by auto
qed

lemma parse_number_gt: "parse_number d pos = Inr (pos', v) \<Longrightarrow> pos < pos'"
  using parse_number_advances [of d pos pos' v] skip_seps_ge [of pos d] by simp

lemma parse_cooridate_gt:
  assumes "parse_cooridate d pos = Inr (pos', xy)"
  shows "pos < pos'"
proof -
  from assms obtain p1 x p2 y where
    a: "parse_number d pos = Inr (p1, x)" and
    b: "parse_number d (skip_seps d (skip_seps d p1)) = Inr (p2, y)" and
    c: "pos' = p2"
    by (auto simp: parse_cooridate_def Let_def raise_unexpected_end_of_data_def
          split: sum.splits if_splits)
  from a have "pos < p1" by (rule parse_number_gt)
  moreover have "p1 \<le> skip_seps d (skip_seps d p1)"
    using skip_seps_ge [of p1 d] skip_seps_ge [of "skip_seps d p1" d] by simp
  moreover from b have "skip_seps d (skip_seps d p1) < p2" by (rule parse_number_gt)
  ultimately show ?thesis using c by simp
qed

lemma parse_command_gt:
  assumes "parse_command c d pos = Inr (pos', cmd)"
  shows "pos < pos'"
  using assms
  by (auto simp: parse_command_def split: if_splits sum.splits dest!: parse_cooridate_gt)

subsection \<open>The driver\<close>

text \<open>
  The \<open>while\<close> loop of \<open>parse_d_property\<close> over its three variables: the cursor,
  \<open>last_command\<close> (\<open>None\<close> at the start) and the list built so far. The loop ends
  because every successful \<open>parse_command\<close> moves the cursor forward.
\<close>

function parse_loop ::
  "string \<Rightarrow> nat \<Rightarrow> char option \<Rightarrow> PathCommand list \<Rightarrow> error + PathCommand list" where
  "parse_loop d pos0 last_command command_list =
     (if pos0 < length d then
        let c = d ! pos0;
            pos = pos0 + 1
        in if c \<in> set commands then
             (case parse_command c d pos of
                Inl e \<Rightarrow> Inl e
              | Inr (pos, path_command) \<Rightarrow>
                  parse_loop d (skip_seps d pos) (Some c) (command_list @ [path_command]))
           else if c \<in> set numberic_chars \<and> last_command \<noteq> None then
             (case parse_command (the last_command) d (pos - 1) of
                Inl e \<Rightarrow> Inl e
              | Inr (pos, path_command) \<Rightarrow>
                  parse_loop d (skip_seps d pos) last_command (command_list @ [path_command]))
           else raise_unexpected_char d pos
      else Inr command_list)"
  by pat_completeness auto
termination
proof (relation "measure (\<lambda>(d, pos, last_command, command_list). length d - pos)")
  show "wf (measure (\<lambda>(d, pos, last_command, command_list). length d - pos))" by simp
next
  fix d :: string and pos0 :: nat and last_command :: "char option"
    and command_list :: "PathCommand list" and x xa x2 x1 x2a
  assume "pos0 < length d" and "x = d ! pos0" and "xa = pos0 + 1"
    and "parse_command x d xa = Inr x2" and "(x1, x2a) = x2"
  then have "pos0 + 1 < x1" using parse_command_gt [of x d xa x1 x2a] by simp
  with skip_seps_ge [of x1 d] \<open>pos0 < length d\<close>
  show "((d, skip_seps d x1, Some x, command_list @ [x2a]), (d, pos0, last_command, command_list))
        \<in> measure (\<lambda>(d, pos, last_command, command_list). length d - pos)"
    by simp
next
  fix d :: string and pos0 :: nat and last_command :: "char option"
    and command_list :: "PathCommand list" and x xa x2 x1 x2a
  assume "pos0 < length d" and "xa = pos0 + 1"
    and "parse_command (the last_command) d (xa - 1) = Inr x2" and "(x1, x2a) = x2"
  then have "pos0 < x1" using parse_command_gt [of "the last_command" d pos0 x1 x2a] by simp
  with skip_seps_ge [of x1 d] \<open>pos0 < length d\<close>
  show "((d, skip_seps d x1, last_command, command_list @ [x2a]), (d, pos0, last_command, command_list))
        \<in> measure (\<lambda>(d, pos, last_command, command_list). length d - pos)"
    by simp
qed

declare parse_loop.simps [simp del]

definition parse_d_property :: "string \<Rightarrow> error + PathCommand list" where
  "parse_d_property d =
     (if length d = 0 then Inl EmptyInput
      else
        let pos = 0;
            pos = skip_seps d pos;
            pos = skip_seps d pos
        in parse_loop d pos None [])"

subsection \<open>Formatting numbers\<close>

text \<open>
  The module has no formatter of its own: a parsed value is written back to text with
  Python's \<open>str\<close>, modelled here as \<open>int\<close> and \<open>float\<close> are above. For an \<open>int\<close>,
  \<open>str\<close> gives the decimal digits without leading zeros, behind a minus sign for a
  negative number. As for \<open>int\<close>, interpreter limits on the length of a converted
  integer are not modelled.
\<close>

definition digit_char :: "int \<Rightarrow> char" where
  "digit_char k = ''0123456789'' ! nat k"

function digits_of :: "int \<Rightarrow> string" where
  "digits_of n =
     (if n < 10 then [digit_char n] else digits_of (n div 10) @ [digit_char (n mod 10)])"
  by pat_completeness auto
termination
  by (relation "measure nat") auto

declare digits_of.simps [simp del]

definition py_str_int :: "int \<Rightarrow> string" where
  "py_str_int n = (if n < 0 then CHR ''-'' # digits_of (- n) else digits_of n)"

text \<open>
  For a \<open>float\<close>, \<open>str\<close> is \<open>repr\<close>: the shortest digit string \<open>ds\<close> that reads back as
  the same number, and the position \<open>decpt\<close> of the decimal point relative to its
  first digit. Python lays them out in exponent notation where \<open>decpt \<le> -4\<close> or
  \<open>decpt > 16\<close> (a mantissa \<open>d\<close> or \<open>d.ddd\<close>, the letter \<open>e\<close>, the sign of the exponent
  and at least two digits of it), and in fixed notation otherwise, with \<open>.0\<close> behind a
  whole number. The model takes the digits from the exact decimal value that
  \<open>FloatV\<close> carries: \<open>m / 10 ^ k\<close> with \<open>k\<close> from the denominator of the value
  (\<open>dec_scale\<close> counts the factors 2 and 5 of a denominator that divides a power of
  10), \<open>ds\<close> the digits of \<open>m\<close> without trailing zeros. These are the digits Python prints
  wherever the literal has no more significant digits than binary64 keeps (15); the
  rounding of longer literals is not modelled, and neither is the sign of a zero.
\<close>

function dec_scale :: "int \<Rightarrow> nat" where
  "dec_scale b =
     (if b \<le> 1 then 0
      else if b mod 10 = 0 then 1 + dec_scale (b div 10)
      else if b mod 2 = 0 then 1 + dec_scale (b div 2)
      else if b mod 5 = 0 then 1 + dec_scale (b div 5)
      else 0)"
  by pat_completeness auto
termination
  by (relation "measure nat") auto

declare dec_scale.simps [simp del]

definition strip_zeros :: "string \<Rightarrow> string" where
  "strip_zeros s = rev (dropWhile (\<lambda>c. c = CHR ''0'') (rev s))"

definition py_repr_float :: "rat \<Rightarrow> string" where
  "py_repr_float q =
     (let (a, b) = quotient_of q;
          k = dec_scale b;
          m = \<bar>a\<bar> * 10 ^ k div b
      in if m = 0 then ''0.0''
         else
           let sign = (if q < 0 then ''-'' else []);
               digits = digits_of m;
               ds = strip_zeros digits;
               n = int (length ds);
               decpt = int (length digits) - int k
           in if decpt \<le> - 4 \<or> 16 < decpt then
                let e = decpt - 1
                in sign @ [hd ds] @ (if 1 < n then CHR ''.'' # tl ds else []) @ ''e'' @
                   (if e < 0 then ''-'' else ''+'') @
                   (if \<bar>e\<bar> < 10 then ''0'' else []) @ digits_of \<bar>e\<bar>
              else if decpt \<le> 0 then
                sign @ ''0.'' @ replicate (nat (- decpt)) CHR ''0'' @ ds
              else if decpt < n then
                sign @ take (nat decpt) ds @ ''.'' @ drop (nat decpt) ds
              else
                sign @ ds @ replicate (nat (decpt - n)) CHR ''0'' @ ''.0'')"

text \<open>Python's \<open>str\<close> on a parsed value.\<close>

definition py_str :: "number \<Rightarrow> string" where
  "py_str v = (case v of IntV n \<Rightarrow> py_str_int n | FloatV q \<Rightarrow> py_repr_float q)"


section \<open>Properties\<close>

subsection \<open>Separators\<close>

lemma skip_seps_all_seps:
  assumes "\<forall>i. pos \<le> i \<and> i < length d \<longrightarrow> d ! i \<in> set sep_chars" and "pos \<le> length d"
  shows "skip_seps d pos = length d"
  using assms
proof (induction d pos rule: skip_seps.induct)
  case (1 d pos)
  show ?case
  proof (cases "pos < length d")
    case True
    with "1.prems" have sep: "d ! pos \<in> set sep_chars" by simp
    from True "1.prems" have "skip_seps d (pos + 1) = length d"
      by (intro "1.IH" [OF True sep]) auto
    with True sep show ?thesis by (simp add: skip_seps.simps [of d pos])
  next
    case False
    with "1.prems" have "pos = length d" by simp
    then show ?thesis by (simp add: skip_seps.simps [of d "length d"])
  qed
qed

lemma skip_seps_at_end: "length d \<le> pos \<Longrightarrow> skip_seps d pos = pos"
  by (simp add: skip_seps.simps [of d pos])

lemma parse_loop_at_end: "length d \<le> pos \<Longrightarrow> parse_loop d pos lc acc = Inr acc"
  by (simp add: parse_loop.simps [of d pos lc acc])

text \<open>
  Claim C10. A string that is not empty and holds separator characters only (spaces,
  commas, newlines) is parsed with success, and the result is the empty list of
  commands: the two calls of \<open>skip_seps\<close> before the loop move the cursor to the end,
  so the loop body never runs and no exception is raised.
\<close>

theorem separators_only_empty_result:
  assumes "d \<noteq> []" and "set d \<subseteq> set sep_chars"
  shows "parse_d_property d = Inr []"
proof -
  from assms(2) have "\<forall>i. 0 \<le> i \<and> i < length d \<longrightarrow> d ! i \<in> set sep_chars"
    by (auto simp: subset_iff)
  then have "skip_seps d 0 = length d" by (rule skip_seps_all_seps) simp
  with assms(1) show ?thesis
    by (simp add: parse_d_property_def skip_seps_at_end parse_loop_at_end)
qed

theorem separators_only_empty_result_witness:
  "parse_d_property [CHR '' '', CHR '','', CHR 0x0A, CHR '' ''] = Inr []"
proof -
  have "set [CHR '' '', CHR '','', CHR 0x0A, CHR '' ''] \<subseteq> set sep_chars"
    by (simp add: sep_chars_def)
  then show ?thesis by (intro separators_only_empty_result) simp_all
qed

text \<open>
  Claim C8. The inputs \<open>M 100 100\<close>, \<open>M100,100\<close> and \<open>M100 100\<close> are all parsed with
  success and give the same result, one record with command \<open>M\<close> and the integer
  arguments 100 and 100; so does the input with a newline in the place of each blank.
\<close>

theorem separator_tolerance:
  "parse_d_property ''M 100 100'' = Inr [\<lparr>command = CHR ''M'', args = [IntV 100, IntV 100]\<rparr>] \<and>
   parse_d_property ''M100,100'' = Inr [\<lparr>command = CHR ''M'', args = [IntV 100, IntV 100]\<rparr>] \<and>
   parse_d_property ''M100 100'' = Inr [\<lparr>command = CHR ''M'', args = [IntV 100, IntV 100]\<rparr>] \<and>
   parse_d_property
     [CHR ''M'', CHR 0x0A, CHR ''1'', CHR ''0'', CHR ''0'', CHR 0x0A, CHR ''1'', CHR ''0'', CHR ''0'']
     = Inr [\<lparr>command = CHR ''M'', args = [IntV 100, IntV 100]\<rparr>]"
  by code_simp

subsection \<open>Records and their argument counts\<close>

lemma parse_command_record:
  assumes "parse_command c d pos = Inr (pos', pc)"
  shows "command pc = c \<and> c \<in> set commands \<and>
         (c \<in> set moveto_commands \<longrightarrow> length (args pc) = 2) \<and>
         (c \<in> set curveto_commands \<longrightarrow> length (args pc) = 6) \<and>
         (c \<in> set smooth_curveto_commands \<longrightarrow> length (args pc) = 4)"
proof -
  have disj: "set moveto_commands \<inter> set curveto_commands = {}"
    "set moveto_commands \<inter> set smooth_curveto_commands = {}"
    "set curveto_commands \<inter> set smooth_curveto_commands = {}"
    by (simp_all add: moveto_commands_def curveto_commands_def smooth_curveto_commands_def
          moveto_absolute_def moveto_relative_def curveto_absolute_def curveto_relative_def
          smooth_curveto_absolute_def smooth_curveto_relative_def)
  show ?thesis
  proof (cases "c \<in> set moveto_commands")
    case True
    with assms disj show ?thesis
      by (auto simp: parse_command_def commands_def split: sum.splits)
  next
    case nm: False
    show ?thesis
    proof (cases "c \<in> set curveto_commands")
      case True
      with nm assms disj show ?thesis
        by (auto simp: parse_command_def commands_def split: sum.splits)
    next
      case nc: False
      show ?thesis
      proof (cases "c \<in> set smooth_curveto_commands")
        case True
        with nm nc assms show ?thesis
          by (auto simp: parse_command_def commands_def split: sum.splits)
      next
        case False
        with nm nc assms show ?thesis by (simp add: parse_command_def)
      qed
    qed
  qed
qed

lemma parse_loop_records:
  assumes "parse_loop d pos lc acc = Inr cmds" and "\<forall>pc \<in> set acc. P pc"
    and step: "\<And>c d p p' pc. parse_command c d p = Inr (p', pc) \<Longrightarrow> P pc"
  shows "\<forall>pc \<in> set cmds. P pc"
  using assms(1,2)
proof (induction d pos lc acc rule: parse_loop.induct)
  case (1 d pos0 last_command command_list)
  note step' = step
  show ?case
  proof (cases "pos0 < length d")
    case False
    with "1.prems" show ?thesis by (simp add: parse_loop.simps [of d pos0])
  next
    case inb: True
    show ?thesis
    proof (cases "d ! pos0 \<in> set commands")
      case True
      with inb "1.prems"(1) obtain p' pc where
        pc: "parse_command (d ! pos0) d (pos0 + 1) = Inr (p', pc)" and
        rest: "parse_loop d (skip_seps d p') (Some (d ! pos0)) (command_list @ [pc]) = Inr cmds"
        by (auto simp: parse_loop.simps [of d pos0] Let_def split: sum.splits)
      from pc have "P pc" by (rule step')
      with "1.prems"(2) have all: "\<forall>x \<in> set (command_list @ [pc]). P x" by simp
      show ?thesis
        by (rule "1.IH"(1) [OF inb refl refl True pc refl rest all])
    next
      case nc: False
      show ?thesis
      proof (cases "d ! pos0 \<in> set numberic_chars \<and> last_command \<noteq> None")
        case True
        with inb nc "1.prems"(1) obtain p' pc where
          pc: "parse_command (the last_command) d (pos0 + 1 - 1) = Inr (p', pc)" and
          rest: "parse_loop d (skip_seps d p') last_command (command_list @ [pc]) = Inr cmds"
          by (auto simp: parse_loop.simps [of d pos0] Let_def split: sum.splits)
        from pc have "P pc" by (rule step')
        with "1.prems"(2) have all: "\<forall>x \<in> set (command_list @ [pc]). P x" by simp
        show ?thesis
          by (rule "1.IH"(2) [OF inb refl refl nc True pc refl rest all])
      next
        case False
        with inb nc "1.prems"(1) show ?thesis
          by (auto simp: parse_loop.simps [of d pos0] Let_def raise_unexpected_char_def
                split: if_splits)
      qed
    qed
  qed
qed


text \<open>
  Claim C1. Whenever \<open>parse_d_property\<close> succeeds, every record of the returned list
  has the argument count of its command letter: 2 arguments for \<open>M\<close> and \<open>m\<close>, 6 for
  \<open>C\<close> and \<open>c\<close>, 4 for \<open>S\<close> and \<open>s\<close>, and no other letter occurs. A record is built
  only where all its coordinate pairs have been read, so none is partially filled.
\<close>

theorem argument_count_by_letter:
  assumes "parse_d_property d = Inr cmds" and "pc \<in> set cmds"
  shows "(command pc \<in> {CHR ''M'', CHR ''m''} \<and> length (args pc) = 2) \<or>
         (command pc \<in> {CHR ''C'', CHR ''c''} \<and> length (args pc) = 6) \<or>
         (command pc \<in> {CHR ''S'', CHR ''s''} \<and> length (args pc) = 4)"
    (is "?P pc")
proof -
  have step: "?P x" if "parse_command c d' p = Inr (p', x)" for c d' p p' x
    using parse_command_record [OF that]
    by (auto simp: commands_def moveto_commands_def curveto_commands_def
          smooth_curveto_commands_def moveto_absolute_def moveto_relative_def
          curveto_absolute_def curveto_relative_def smooth_curveto_absolute_def
          smooth_curveto_relative_def)
  from assms(1) obtain pos where "parse_loop d pos None [] = Inr cmds"
    by (auto simp: parse_d_property_def Let_def split: if_splits)
  then have "\<forall>x \<in> set cmds. ?P x"
    by (rule parse_loop_records) (simp, rule step)
  with assms(2) show ?thesis by blast
qed

theorem argument_count_by_letter_witness:
  "parse_d_property ''M0 0c1,2 3,4 5.5-6'' =
     Inr [\<lparr>command = CHR ''M'', args = [IntV 0, IntV 0]\<rparr>,
          \<lparr>command = CHR ''c'',
             args = [IntV 1, IntV 2, IntV 3, IntV 4, FloatV (11 / 2), IntV (- 6)]\<rparr>] \<and>
   length (args \<lparr>command = CHR ''c'',
             args = [IntV 1, IntV 2, IntV 3, IntV 4, FloatV (11 / 2), IntV (- 6)]\<rparr>) = 6"
proof -
  have run: "parse_d_property ''M0 0c1,2 3,4 5.5-6'' =
      Inr [\<lparr>command = CHR ''M'', args = [IntV 0, IntV 0]\<rparr>,
           \<lparr>command = CHR ''c'',
              args = [IntV 1, IntV 2, IntV 3, IntV 4, FloatV (11 / 2), IntV (- 6)]\<rparr>]"
    by code_simp
  have "\<lparr>command = CHR ''c'',
          args = [IntV 1, IntV 2, IntV 3, IntV 4, FloatV (11 / 2), IntV (- 6)]\<rparr>
        \<in> set [\<lparr>command = CHR ''M'', args = [IntV 0, IntV 0]\<rparr>,
           \<lparr>command = CHR ''c'',
              args = [IntV 1, IntV 2, IntV 3, IntV 4, FloatV (11 / 2), IntV (- 6)]\<rparr>]"
    by simp
  from argument_count_by_letter [OF run this] run show ?thesis by simp
qed

subsection \<open>Command-letter elision\<close>

lemma numberic_not_command: "c \<in> set numberic_chars \<Longrightarrow> c \<notin> set commands"
  by (auto simp: numberic_chars_def numbers_def minus_sign_def decimal_point_def commands_def
        moveto_commands_def curveto_commands_def smooth_curveto_commands_def
        moveto_absolute_def moveto_relative_def curveto_absolute_def curveto_relative_def
        smooth_curveto_absolute_def smooth_curveto_relative_def)

text \<open>
  Claim C3. Command-letter elision: when the loop of the driver reads a digit, a minus
  sign or a decimal point while a last command \<open>lc\<close> is set, it runs \<open>parse_command\<close>
  for \<open>lc\<close> with the scan starting at that very character, appends the record and goes
  on behind it. So \<open>M0 0 1 1\<close> gives two \<open>M\<close> records with the arguments (0, 0) and
  (1, 1), and \<open>M0 0-1-1\<close> two \<open>M\<close> records with the arguments (0, 0) and (-1, -1).
\<close>

theorem command_letter_elision:
  "(pos < length d \<and> d ! pos \<in> set numberic_chars \<longrightarrow>
      parse_loop d pos (Some lc) command_list =
        (case parse_command lc d pos of
           Inl e \<Rightarrow> Inl e
         | Inr (pos', path_command) \<Rightarrow>
             parse_loop d (skip_seps d pos') (Some lc) (command_list @ [path_command]))) \<and>
   parse_d_property ''M0 0 1 1'' =
     Inr [\<lparr>command = CHR ''M'', args = [IntV 0, IntV 0]\<rparr>,
          \<lparr>command = CHR ''M'', args = [IntV 1, IntV 1]\<rparr>] \<and>
   parse_d_property ''M0 0-1-1'' =
     Inr [\<lparr>command = CHR ''M'', args = [IntV 0, IntV 0]\<rparr>,
          \<lparr>command = CHR ''M'', args = [IntV (- 1), IntV (- 1)]\<rparr>]"
proof (intro conjI impI)
  assume a: "pos < length d \<and> d ! pos \<in> set numberic_chars"
  then have "d ! pos \<notin> set commands" by (simp add: numberic_not_command)
  with a show "parse_loop d pos (Some lc) command_list =
        (case parse_command lc d pos of
           Inl e \<Rightarrow> Inl e
         | Inr (pos', path_command) \<Rightarrow>
             parse_loop d (skip_seps d pos') (Some lc) (command_list @ [path_command]))"
    by (simp add: parse_loop.simps [of d pos] Let_def)
next
  show "parse_d_property ''M0 0 1 1'' =
     Inr [\<lparr>command = CHR ''M'', args = [IntV 0, IntV 0]\<rparr>,
          \<lparr>command = CHR ''M'', args = [IntV 1, IntV 1]\<rparr>]"
    by code_simp
next
  show "parse_d_property ''M0 0-1-1'' =
     Inr [\<lparr>command = CHR ''M'', args = [IntV 0, IntV 0]\<rparr>,
          \<lparr>command = CHR ''M'', args = [IntV (- 1), IntV (- 1)]\<rparr>]"
    by code_simp
qed

theorem command_letter_elision_witness:
  "parse_loop ''M0 0-1-1'' 4 (Some CHR ''M'') [\<lparr>command = CHR ''M'', args = [IntV 0, IntV 0]\<rparr>] =
     Inr [\<lparr>command = CHR ''M'', args = [IntV 0, IntV 0]\<rparr>,
          \<lparr>command = CHR ''M'', args = [IntV (- 1), IntV (- 1)]\<rparr>]"
proof -
  have h: "4 < length ''M0 0-1-1'' \<and> ''M0 0-1-1'' ! 4 \<in> set numberic_chars"
    by code_simp
  have c: "parse_command CHR ''M'' ''M0 0-1-1'' 4 =
           Inr (8, \<lparr>command = CHR ''M'', args = [IntV (- 1), IntV (- 1)]\<rparr>)"
    by code_simp
  have s: "skip_seps ''M0 0-1-1'' 8 = 8" by code_simp
  have l: "parse_loop ''M0 0-1-1'' 8 (Some CHR ''M'') acc = Inr acc" for acc
    by (rule parse_loop_at_end) simp
  from command_letter_elision [of 4 "''M0 0-1-1''" "CHR ''M''"
      "[\<lparr>command = CHR ''M'', args = [IntV 0, IntV 0]\<rparr>]"] h
  have "parse_loop ''M0 0-1-1'' 4 (Some CHR ''M'') [\<lparr>command = CHR ''M'', args = [IntV 0, IntV 0]\<rparr>] =
        (case parse_command CHR ''M'' ''M0 0-1-1'' 4 of
           Inl e \<Rightarrow> Inl e
         | Inr (pos', path_command) \<Rightarrow>
             parse_loop ''M0 0-1-1'' (skip_seps ''M0 0-1-1'' pos') (Some CHR ''M'')
               ([\<lparr>command = CHR ''M'', args = [IntV 0, IntV 0]\<rparr>] @ [path_command]))"
    by blast
  then show ?thesis by (simp only: c s l sum.case prod.case append.simps)
qed

subsection \<open>Numbers\<close>

lemma skip_numbers_le: "pos \<le> length d \<Longrightarrow> skip_numbers d pos \<le> length d"
proof (induction d pos rule: skip_numbers.induct)
  case (1 d pos)
  show ?case
  proof (cases "pos < length d \<and> d ! pos \<in> set numbers")
    case True
    with "1.IH" have "skip_numbers d (pos + 1) \<le> length d" by simp
    with True show ?thesis by (simp add: skip_numbers.simps [of d pos])
  next
    case False
    with "1.prems" show ?thesis by (auto simp: skip_numbers.simps [of d pos])
  qed
qed

lemma skip_numbers_digits:
  "pos \<le> i \<Longrightarrow> i < skip_numbers d pos \<Longrightarrow> d ! i \<in> set numbers"
proof (induction d pos rule: skip_numbers.induct)
  case (1 d pos)
  show ?case
  proof (cases "pos < length d \<and> d ! pos \<in> set numbers")
    case True
    show ?thesis
    proof (cases "i = pos")
      case True
      with \<open>pos < length d \<and> d ! pos \<in> set numbers\<close> show ?thesis by simp
    next
      case False
      with "1.prems" have "pos + 1 \<le> i" by simp
      moreover from True "1.prems" have "i < skip_numbers d (pos + 1)"
        by (simp add: skip_numbers.simps [of d pos])
      ultimately show ?thesis using "1.IH" True by simp
    qed
  next
    case False
    then have "skip_numbers d pos = pos" by (auto simp: skip_numbers.simps [of d pos])
    with "1.prems" show ?thesis by simp
  qed
qed

lemma skip_numbers_stop:
  "skip_numbers d pos < length d \<Longrightarrow> pos \<le> length d \<Longrightarrow> d ! skip_numbers d pos \<notin> set numbers"
proof (induction d pos rule: skip_numbers.induct)
  case (1 d pos)
  show ?case
  proof (cases "pos < length d \<and> d ! pos \<in> set numbers")
    case True
    with "1.prems" "1.IH" show ?thesis by (simp add: skip_numbers.simps [of d pos])
  next
    case False
    with "1.prems" show ?thesis by (auto simp: skip_numbers.simps [of d pos])
  qed
qed

lemma set_slice:
  "x \<in> set (slice d a b) \<longleftrightarrow> (\<exists>i. a \<le> i \<and> i < b \<and> i < length d \<and> d ! i = x)"
proof
  assume "x \<in> set (slice d a b)"
  then obtain k where k: "k < length (slice d a b)" and x: "slice d a b ! k = x"
    by (auto simp: in_set_conv_nth)
  from k have "k < b - a" and "a + k < length d" by (auto simp: slice_def)
  with x have "d ! (a + k) = x" by (simp add: slice_def)
  with \<open>k < b - a\<close> \<open>a + k < length d\<close> show "\<exists>i. a \<le> i \<and> i < b \<and> i < length d \<and> d ! i = x"
    by (intro exI [of _ "a + k"]) auto
next
  assume "\<exists>i. a \<le> i \<and> i < b \<and> i < length d \<and> d ! i = x"
  then obtain i where i: "a \<le> i" "i < b" "i < length d" "d ! i = x" by blast
  then have "i - a < length (slice d a b)" by (auto simp: slice_def)
  moreover from i have "slice d a b ! (i - a) = x" by (simp add: slice_def)
  ultimately show "x \<in> set (slice d a b)" by (auto simp: in_set_conv_nth)
qed

lemma decimal_point_no_digit: "decimal_point \<notin> set numbers"
  by (simp add: decimal_point_def numbers_def)

lemma minus_sign_no_digit: "minus_sign \<notin> set numbers"
  by (simp add: minus_sign_def numbers_def)

lemma parse_number_success:
  assumes "parse_number d pos = Inr (pos', v)"
  obtains
    (int) s p1 n where
      "s = skip_seps d pos" "p1 = (if d ! s = minus_sign then s + 1 else s)"
      "s < length d" "p1 < length d" "d ! p1 \<in> set numbers"
      "pos' = skip_numbers d p1" "\<not> (pos' < length d \<and> d ! pos' = decimal_point)"
      "py_int (slice d s pos') = Inr n" "v = IntV n"
  | (float) s p1 p2 q where
      "s = skip_seps d pos" "p1 = (if d ! s = minus_sign then s + 1 else s)"
      "s < length d" "p1 < length d" "d ! p1 \<in> set numbers"
      "p2 = skip_numbers d p1" "p2 < length d" "d ! p2 = decimal_point"
      "p2 + 1 < length d" "d ! (p2 + 1) \<in> set numbers"
      "pos' = skip_numbers d (p2 + 1)"
      "py_float (slice d s pos') = Inr q" "v = FloatV q"
proof -
  define s where "s = skip_seps d pos"
  define p1 where "p1 = (if d ! s = minus_sign then s + 1 else s)"
  define p2 where "p2 = skip_numbers d p1"
  from assms have s: "s < length d"
    by (auto simp: parse_number_def Let_def s_def raise_unexpected_end_of_data_def
          split: if_splits)
  from assms s have p1: "p1 < length d" "d ! p1 \<in> set numbers"
    by (auto simp: parse_number_def Let_def s_def p1_def raise_unexpected_end_of_data_def
          raise_unexpected_char_def split: if_splits)
  show thesis
  proof (cases "p2 < length d \<and> d ! p2 = decimal_point")
    case False
    with assms s p1 obtain n where "pos' = p2" "py_int (slice d s pos') = Inr n" "v = IntV n"
      by (auto simp: parse_number_def Let_def s_def p1_def p2_def raise_unexpected_end_of_data_def
          raise_unexpected_char_def split: if_splits sum.splits)
    with s p1 False show thesis
      by (intro int [of s p1 n]) (simp_all add: s_def p1_def p2_def)
  next
    case True
    with assms s p1 obtain q where "p2 + 1 < length d" "d ! (p2 + 1) \<in> set numbers"
      "pos' = skip_numbers d (p2 + 1)" "py_float (slice d s pos') = Inr q" "v = FloatV q"
      by (auto simp: parse_number_def Let_def s_def p1_def p2_def raise_unexpected_end_of_data_def
          raise_unexpected_char_def split: if_splits sum.splits)
    with s p1 True show thesis
      by (intro float [of s p1 p2 q]) (simp_all add: s_def p1_def p2_def)
  qed
qed


lemma minus_sign_not_point: "minus_sign \<noteq> decimal_point"
  by (simp add: minus_sign_def decimal_point_def)

lemma parse_number_kind:
  assumes "parse_number d pos = Inr (pos', v)"
  shows "skip_seps d pos < pos' \<and> pos' \<le> length d \<and>
         (case v of
            IntV n \<Rightarrow> decimal_point \<notin> set (slice d (skip_seps d pos) pos') \<and>
                      py_int (slice d (skip_seps d pos) pos') = Inr n
          | FloatV q \<Rightarrow> decimal_point \<in> set (slice d (skip_seps d pos) pos') \<and>
                        py_float (slice d (skip_seps d pos) pos') = Inr q)"
  using assms
proof (cases rule: parse_number_success)
  case (int s p1 n)
  have "s \<le> p1" using int(2) by simp
  have "p1 < pos'" using int(4,5,6) by (simp add: skip_numbers_gt)
  have "pos' \<le> length d" using int(4,6) by (simp add: skip_numbers_le)
  have "decimal_point \<notin> set (slice d s pos')"
  proof
    assume "decimal_point \<in> set (slice d s pos')"
    then obtain i where i: "s \<le> i" "i < pos'" "d ! i = decimal_point"
      by (auto simp: set_slice)
    show False
    proof (cases "p1 \<le> i")
      case True
      with i(2) int(6) have "d ! i \<in> set numbers" by (simp add: skip_numbers_digits)
      with i(3) decimal_point_no_digit show False by simp
    next
      case False
      with i(1) int(2) have "i = s" "d ! s = minus_sign" by (auto split: if_splits)
      with i(3) minus_sign_not_point show False by simp
    qed
  qed
  with int \<open>s \<le> p1\<close> \<open>p1 < pos'\<close> \<open>pos' \<le> length d\<close> show ?thesis by simp
next
  case (float s p1 p2 q)
  have "s \<le> p1" using float(2) by simp
  have "p1 < p2" using float(4,5,6) by (simp add: skip_numbers_gt)
  have "p2 + 1 < pos'" using float(9,10,11) by (simp add: skip_numbers_gt)
  have "pos' \<le> length d" using float(9,11) by (simp add: skip_numbers_le)
  have "decimal_point \<in> set (slice d s pos')"
    unfolding set_slice using \<open>s \<le> p1\<close> \<open>p1 < p2\<close> \<open>p2 + 1 < pos'\<close> float(7,8)
    by (intro exI [of _ p2]) simp
  with float \<open>s \<le> p1\<close> \<open>p1 < p2\<close> \<open>p2 + 1 < pos'\<close> \<open>pos' \<le> length d\<close> show ?thesis by simp
qed

text \<open>
  Claim C2. Whenever \<open>parse_number\<close> succeeds from a position, the cursor it returns
  lies behind the first character that is no separator, and the value is decoded from
  the consumed substring \<open>d[start:pos']\<close>: it is an integer, read by \<open>int\<close>, exactly when
  the substring holds no decimal point, and a fractional value, read by \<open>float\<close>,
  exactly when it holds one. So \<open>M1.5 2.25\<close> gives one \<open>M\<close> record whose two arguments
  are the fractional values 1.5 and 2.25.
\<close>

theorem parse_number_value:
  "(parse_number d pos = Inr (pos', v) \<longrightarrow>
      skip_seps d pos < pos' \<and> pos' \<le> length d \<and>
      (case v of
         IntV n \<Rightarrow> decimal_point \<notin> set (slice d (skip_seps d pos) pos') \<and>
                   py_int (slice d (skip_seps d pos) pos') = Inr n
       | FloatV q \<Rightarrow> decimal_point \<in> set (slice d (skip_seps d pos) pos') \<and>
                     py_float (slice d (skip_seps d pos) pos') = Inr q)) \<and>
   parse_d_property ''M1.5 2.25'' =
     Inr [\<lparr>command = CHR ''M'', args = [FloatV (3 / 2), FloatV (9 / 4)]\<rparr>]"
proof (intro conjI impI)
  show "parse_d_property ''M1.5 2.25'' =
     Inr [\<lparr>command = CHR ''M'', args = [FloatV (3 / 2), FloatV (9 / 4)]\<rparr>]"
    by code_simp
qed (simp_all add: parse_number_kind)

theorem parse_number_value_witness:
  "parse_number ''M1.5 2.25'' 1 = Inr (4, FloatV (3 / 2)) \<and>
   decimal_point \<in> set (slice ''M1.5 2.25'' (skip_seps ''M1.5 2.25'' 1) 4) \<and>
   py_float (slice ''M1.5 2.25'' (skip_seps ''M1.5 2.25'' 1) 4) = Inr (3 / 2) \<and>
   parse_number ''M1.5 -20'' 4 = Inr (8, IntV (- 20)) \<and>
   decimal_point \<notin> set (slice ''M1.5 -20'' (skip_seps ''M1.5 -20'' 4) 8) \<and>
   py_int (slice ''M1.5 -20'' (skip_seps ''M1.5 -20'' 4) 8) = Inr (- 20)"
proof -
  have a: "parse_number ''M1.5 2.25'' 1 = Inr (4, FloatV (3 / 2))" by code_simp
  have b: "parse_number ''M1.5 -20'' 4 = Inr (8, IntV (- 20))" by code_simp
  from parse_number_value [of "''M1.5 2.25''" 1 4 "FloatV (3 / 2)"] a
  have "decimal_point \<in> set (slice ''M1.5 2.25'' (skip_seps ''M1.5 2.25'' 1) 4) \<and>
        py_float (slice ''M1.5 2.25'' (skip_seps ''M1.5 2.25'' 1) 4) = Inr (3 / 2)"
    by simp
  moreover from parse_number_value [of "''M1.5 -20''" 4 8 "IntV (- 20)"] b
  have "decimal_point \<notin> set (slice ''M1.5 -20'' (skip_seps ''M1.5 -20'' 4) 8) \<and>
        py_int (slice ''M1.5 -20'' (skip_seps ''M1.5 -20'' 4) 8) = Inr (- 20)"
    by simp
  ultimately show ?thesis using a b by simp
qed

text \<open>
  The strings \<open>parse_number\<close> hands to \<open>int\<close> and \<open>float\<close> always have the shape
  these read, so the conversions never fail.
\<close>

lemma slice_Cons:
  assumes "a < b" and "a < length d"
  shows "slice d a b = d ! a # slice d (a + 1) b"
proof -
  from assms(2) have "drop a d = d ! a # drop (Suc a) d" by (simp add: Cons_nth_drop_Suc)
  moreover from assms(1) obtain k where "b - a = Suc k" and "b - (a + 1) = k"
    by (cases "b - a") auto
  ultimately show ?thesis by (simp add: slice_def)
qed

lemma slice_append:
  assumes "a \<le> b" and "b \<le> c"
  shows "slice d a c = slice d a b @ slice d b c"
proof -
  from assms have "c - a = (b - a) + (c - b)" by simp
  then have "take (c - a) (drop a d) = take (b - a) (drop a d) @ take (c - b) (drop (b - a) (drop a d))"
    by (simp add: take_add)
  with assms show ?thesis by (simp add: slice_def)
qed

lemma all_digits_slice:
  assumes "b \<le> skip_numbers d a"
  shows "all_digits (slice d a b)"
proof -
  have "d ! i \<in> set numbers" if "a \<le> i" and "i < b" for i
    using that assms by (intro skip_numbers_digits [of a i d]) simp_all
  then show ?thesis by (auto simp: all_digits_def list_all_iff set_slice)
qed

lemma slice_nonempty: "a < b \<Longrightarrow> a < length d \<Longrightarrow> slice d a b \<noteq> []"
  by (simp add: slice_Cons)

lemma py_int_slice:
  assumes "s < length d" and "p1 = (if d ! s = minus_sign then s + 1 else s)"
    and "p1 < length d" and "d ! p1 \<in> set numbers"
  shows "\<exists>n. py_int (slice d s (skip_numbers d p1)) = Inr n"
proof -
  define p2 where "p2 = skip_numbers d p1"
  from assms(3,4) have lt: "p1 < p2" unfolding p2_def by (rule skip_numbers_gt)
  have digs: "all_digits (slice d p1 p2)" unfolding p2_def by (rule all_digits_slice) simp
  from lt assms(3) have ne: "slice d p1 p2 \<noteq> []" by (rule slice_nonempty)
  show ?thesis
  proof (cases "d ! s = minus_sign")
    case True
    with assms(2) have p1: "p1 = s + 1" by simp
    with lt assms(1) have "slice d s p2 = minus_sign # slice d p1 p2"
      using True by (simp add: slice_Cons)
    with digs ne show ?thesis unfolding p2_def [symmetric] by (simp add: py_int_def)
  next
    case False
    with assms(2) have p1: "p1 = s" by simp
    with lt assms(1) have "slice d s p2 = d ! s # slice d (s + 1) p2" by (simp add: slice_Cons)
    with False digs ne p1 show ?thesis unfolding p2_def [symmetric] by (simp add: py_int_def)
  qed
qed

lemma takeWhile_digits_point:
  assumes "all_digits xs"
  shows "takeWhile (\<lambda>c. c \<noteq> decimal_point) (xs @ decimal_point # ys) = xs"
proof -
  from assms have "\<forall>c \<in> set xs. c \<noteq> decimal_point"
    using decimal_point_no_digit by (auto simp: all_digits_def list_all_iff)
  then show ?thesis by (simp add: takeWhile_tail)
qed

lemma py_float_slice:
  assumes "s < length d" and "p1 = (if d ! s = minus_sign then s + 1 else s)"
    and "p1 < length d" and "d ! p1 \<in> set numbers"
    and "p2 = skip_numbers d p1" and "p2 < length d" and "d ! p2 = decimal_point"
    and "p2 + 1 < length d" and "d ! (p2 + 1) \<in> set numbers"
  shows "\<exists>q. py_float (slice d s (skip_numbers d (p2 + 1))) = Inr q"
proof -
  define p3 where "p3 = skip_numbers d (p2 + 1)"
  from assms(3,4,5) have lt12: "p1 < p2" by (simp add: skip_numbers_gt)
  from assms(8,9) have lt23: "p2 + 1 < p3" unfolding p3_def by (rule skip_numbers_gt)
  have ip: "all_digits (slice d p1 p2)" using assms(5) by (simp add: all_digits_slice)
  have fp: "all_digits (slice d (p2 + 1) p3)" unfolding p3_def by (rule all_digits_slice) simp
  from lt12 assms(3) have ne: "slice d p1 p2 \<noteq> []" by (rule slice_nonempty)
  have "slice d p1 p3 = slice d p1 p2 @ slice d p2 p3"
    using lt12 lt23 by (intro slice_append) simp_all
  also have "slice d p2 p3 = decimal_point # slice d (p2 + 1) p3"
    using lt23 assms(6,7) by (simp add: slice_Cons)
  finally have body: "slice d p1 p3 = slice d p1 p2 @ decimal_point # slice d (p2 + 1) p3" .
  have tw: "takeWhile (\<lambda>c. c \<noteq> decimal_point) (slice d p1 p3) = slice d p1 p2"
    unfolding body using ip by (rule takeWhile_digits_point)
  have ok: "\<exists>q. py_float (if neg then minus_sign # slice d p1 p3 else slice d p1 p3) = Inr q"
    if "\<not> neg \<longrightarrow> hd (slice d p1 p3) \<noteq> minus_sign" for neg
  proof (cases neg)
    case True
    then show ?thesis using tw ip fp ne by (simp add: py_float_def Let_def body)
  next
    case False
    with that have "hd (slice d p1 p3) \<noteq> minus_sign" by simp
    moreover have "slice d p1 p3 \<noteq> []" using body by simp
    ultimately show ?thesis using False tw ip fp ne
      by (simp add: py_float_def Let_def body)
  qed
  show ?thesis
  proof (cases "d ! s = minus_sign")
    case True
    with assms(2) have p1: "p1 = s + 1" by simp
    with lt12 lt23 assms(1) True have "slice d s p3 = minus_sign # slice d p1 p3"
      by (simp add: slice_Cons)
    with ok [of True] show ?thesis unfolding p3_def [symmetric] by simp
  next
    case False
    with assms(2) have p1: "p1 = s" by simp
    from lt12 lt23 assms(3) have "hd (slice d p1 p3) = d ! p1" by (simp add: slice_Cons)
    with False p1 have "hd (slice d p1 p3) \<noteq> minus_sign" by simp
    with ok [of False] p1 show ?thesis unfolding p3_def [symmetric] by simp
  qed
qed

lemma parse_number_no_ValueError: "parse_number d pos \<noteq> Inl ValueError"
proof
  assume a: "parse_number d pos = Inl ValueError"
  define s where "s = skip_seps d pos"
  define p1 where "p1 = (if d ! s = minus_sign then s + 1 else s)"
  define p2 where "p2 = skip_numbers d p1"
  from a have s: "s < length d"
    by (auto simp: parse_number_def Let_def s_def raise_unexpected_end_of_data_def
          split: if_splits)
  from a s have p1: "p1 < length d" "d ! p1 \<in> set numbers"
    by (auto simp: parse_number_def Let_def s_def p1_def raise_unexpected_end_of_data_def
          raise_unexpected_char_def split: if_splits)
  show False
  proof (cases "p2 < length d \<and> d ! p2 = decimal_point")
    case False
    with a s p1 have "py_int (slice d s p2) = Inl ValueError"
      by (auto simp: parse_number_def Let_def s_def p1_def p2_def raise_unexpected_end_of_data_def
          raise_unexpected_char_def split: if_splits sum.splits)
    moreover from py_int_slice [OF s p1_def p1] obtain n where "py_int (slice d s p2) = Inr n"
      unfolding p2_def by blast
    ultimately show False by simp
  next
    case True
    with a s p1 have p3: "p2 + 1 < length d" "d ! (p2 + 1) \<in> set numbers"
      by (auto simp: parse_number_def Let_def s_def p1_def p2_def raise_unexpected_end_of_data_def
          raise_unexpected_char_def split: if_splits sum.splits)
    with a s p1 True have "py_float (slice d s (skip_numbers d (p2 + 1))) = Inl ValueError"
      by (auto simp: parse_number_def Let_def s_def p1_def p2_def raise_unexpected_end_of_data_def
          raise_unexpected_char_def split: if_splits sum.splits)
    moreover from True have "p2 < length d" "d ! p2 = decimal_point" by simp_all
    from py_float_slice [OF s p1_def p1 p2_def this p3]
    obtain q where "py_float (slice d s (skip_numbers d (p2 + 1))) = Inr q" by blast
    ultimately show False by simp
  qed
qed

subsection \<open>Which errors the functions raise\<close>

text \<open>
  A failed scan ends in one of the module's end-of-data or unexpected-character
  exceptions, or in Python's \<open>IndexError\<close>; \<open>UnsupportedCommand\<close> comes from the
  last branch of \<open>parse_command\<close> only, and \<open>EmptyInput\<close> from the first statement of
  \<open>parse_d_property\<close> only.
\<close>

lemma py_int_error: "py_int s = Inl e \<Longrightarrow> e = ValueError"
  by (auto simp: py_int_def Let_def split: if_splits)

lemma py_float_error: "py_float s = Inl e \<Longrightarrow> e = ValueError"
  by (auto simp: py_float_def Let_def split: if_splits)

lemma parse_number_error:
  assumes "parse_number d pos = Inl e"
  shows "(\<exists>p. e = UnexpectedEndOfData p) \<or> (\<exists>c p. e = UnexpectedChar c p) \<or>
         e = IndexError \<or> e = ValueError"
  using assms
  by (auto simp: parse_number_def Let_def raise_unexpected_end_of_data_def
        raise_unexpected_char_def split: if_splits sum.splits
        dest: py_int_error py_float_error)

lemma parse_cooridate_error:
  assumes "parse_cooridate d pos = Inl e"
  shows "(\<exists>p. e = UnexpectedEndOfData p) \<or> (\<exists>c p. e = UnexpectedChar c p) \<or>
         e = IndexError \<or> e = ValueError"
proof -
  from assms consider (number) p where "parse_number d p = Inl e"
    | (ended) p where "e = UnexpectedEndOfData p"
    by (auto simp: parse_cooridate_def Let_def raise_unexpected_end_of_data_def
          split: if_splits sum.splits)
  then show ?thesis
  proof cases
    case number
    then show ?thesis by (rule parse_number_error)
  next
    case ended
    then show ?thesis by simp
  qed
qed

lemma parse_command_error:
  assumes "parse_command c d pos = Inl e" and "c \<in> set commands"
  shows "(\<exists>p. e = UnexpectedEndOfData p) \<or> (\<exists>c p. e = UnexpectedChar c p) \<or>
         e = IndexError \<or> e = ValueError"
proof -
  from assms obtain p where "parse_cooridate d p = Inl e"
    by (auto simp: parse_command_def commands_def split: if_splits sum.splits)
  then show ?thesis by (rule parse_cooridate_error)
qed

lemma parse_loop_error:
  assumes "parse_loop d pos lc acc = Inl e" and "lc = None \<or> the lc \<in> set commands"
  shows "(\<exists>p. e = UnexpectedEndOfData p) \<or> (\<exists>c p. e = UnexpectedChar c p) \<or>
         e = IndexError \<or> e = ValueError"
  using assms
proof (induction d pos lc acc rule: parse_loop.induct)
  case (1 d pos0 last_command command_list)
  show ?case
  proof (cases "pos0 < length d")
    case False
    with "1.prems" show ?thesis by (simp add: parse_loop.simps [of d pos0])
  next
    case inb: True
    show ?thesis
    proof (cases "d ! pos0 \<in> set commands")
      case True
      show ?thesis
      proof (cases "parse_command (d ! pos0) d (pos0 + 1)")
        case (Inl e')
        with inb True "1.prems"(1) have "e' = e"
          by (simp add: parse_loop.simps [of d pos0] Let_def)
        with Inl True show ?thesis by (auto dest: parse_command_error)
      next
        case (Inr r)
        obtain p' pc where r: "r = (p', pc)" by (cases r)
        with Inr inb True "1.prems"(1)
        have rest: "parse_loop d (skip_seps d p') (Some (d ! pos0)) (command_list @ [pc]) = Inl e"
          by (simp add: parse_loop.simps [of d pos0] Let_def)
        from True have inv: "Some (d ! pos0) = None \<or> the (Some (d ! pos0)) \<in> set commands"
          by simp
        show ?thesis
          by (rule "1.IH"(1) [OF inb refl refl True Inr [unfolded r] refl rest inv])
      qed
    next
      case nc: False
      show ?thesis
      proof (cases "d ! pos0 \<in> set numberic_chars \<and> last_command \<noteq> None")
        case True
        with "1.prems"(2) have lc: "the last_command \<in> set commands" by simp
        show ?thesis
        proof (cases "parse_command (the last_command) d (pos0 + 1 - 1)")
          case (Inl e')
          with inb nc True "1.prems"(1) have "e' = e"
            by (simp add: parse_loop.simps [of d pos0] Let_def)
          with Inl lc show ?thesis by (auto dest: parse_command_error)
        next
          case (Inr r)
          obtain p' pc where r: "r = (p', pc)" by (cases r)
          with Inr inb nc True "1.prems"(1)
          have rest: "parse_loop d (skip_seps d p') last_command (command_list @ [pc]) = Inl e"
            by (simp add: parse_loop.simps [of d pos0] Let_def)
          show ?thesis
            by (rule "1.IH"(2) [OF inb refl refl nc True Inr [unfolded r] refl rest "1.prems"(2)])
        qed
      next
        case False
        with inb nc "1.prems"(1) show ?thesis
          by (auto simp: parse_loop.simps [of d pos0] Let_def raise_unexpected_char_def
                split: if_splits)
      qed
    qed
  qed
qed

lemma parse_d_property_error:
  assumes "parse_d_property d = Inl e"
  shows "(e = EmptyInput \<and> d = []) \<or>
         (d \<noteq> [] \<and> ((\<exists>p. e = UnexpectedEndOfData p) \<or> (\<exists>c p. e = UnexpectedChar c p) \<or>
           e = IndexError \<or> e = ValueError))"
proof (cases "d = []")
  case True
  with assms show ?thesis by (simp add: parse_d_property_def)
next
  case False
  with assms obtain pos where "parse_loop d pos None [] = Inl e"
    by (auto simp: parse_d_property_def Let_def)
  then have "(\<exists>p. e = UnexpectedEndOfData p) \<or> (\<exists>c p. e = UnexpectedChar c p) \<or>
         e = IndexError \<or> e = ValueError"
    by (rule parse_loop_error) simp
  with False show ?thesis by simp
qed

lemma driver_else_branch:
  assumes "pos < length d" and "d ! pos \<notin> set commands"
    and "d ! pos \<notin> set numberic_chars \<or> lc = None"
  shows "parse_loop d pos lc acc = raise_unexpected_char d (pos + 1)"
  using assms by (auto simp: parse_loop.simps [of d pos] Let_def)

text \<open>
  Claim C4, as the code has it. \<open>parse_command\<close>, handed a letter outside
  \<open>M m C c S s\<close>, fails with \<open>UnsupportedCommand\<close> naming that letter and the position
  it was handed. The driver never hands it such a letter: it dispatches on a letter of
  \<open>commands\<close> or on the last one of them, and a character that is neither a command
  letter nor the start of a number ends the parse in the driver's own
  unexpected-character branch, with an error that is not \<open>UnsupportedCommand\<close>.
  \<open>parse_d_property\<close> fails with \<open>UnsupportedCommand\<close> on no input.
\<close>

theorem unsupported_command_only_in_parse_command:
  "(c \<notin> set commands \<longrightarrow> parse_command c d pos = Inl (UnsupportedCommand c pos)) \<and>
   (pos < length d \<and> d ! pos \<notin> set commands \<and> d ! pos \<notin> set numberic_chars \<longrightarrow>
      (\<exists>e. parse_loop d pos lc acc = Inl e \<and> (\<forall>c' p'. e \<noteq> UnsupportedCommand c' p'))) \<and>
   parse_d_property d' \<noteq> Inl (UnsupportedCommand letter offset)"
proof (intro conjI impI)
  assume "c \<notin> set commands"
  then show "parse_command c d pos = Inl (UnsupportedCommand c pos)"
    by (simp add: parse_command_def commands_def)
next
  assume "pos < length d \<and> d ! pos \<notin> set commands \<and> d ! pos \<notin> set numberic_chars"
  then have "parse_loop d pos lc acc = raise_unexpected_char d (pos + 1)"
    by (simp add: driver_else_branch)
  then show "\<exists>e. parse_loop d pos lc acc = Inl e \<and> (\<forall>c' p'. e \<noteq> UnsupportedCommand c' p')"
    by (simp add: raise_unexpected_char_def)
next
  show "parse_d_property d' \<noteq> Inl (UnsupportedCommand letter offset)"
    using parse_d_property_error [of d' "UnsupportedCommand letter offset"] by auto
qed

theorem unsupported_command_only_in_parse_command_witness:
  "parse_command CHR ''Z'' ''Z'' 0 = Inl (UnsupportedCommand CHR ''Z'' 0) \<and>
   (\<exists>e. parse_loop ''Z'' 0 None [] = Inl e \<and> (\<forall>c' p'. e \<noteq> UnsupportedCommand c' p')) \<and>
   parse_d_property ''Z'' \<noteq> Inl (UnsupportedCommand CHR ''Z'' 0)"
proof -
  have "CHR ''Z'' \<notin> set commands" by code_simp
  moreover have "0 < length ''Z'' \<and> ''Z'' ! 0 \<notin> set commands \<and> ''Z'' ! 0 \<notin> set numberic_chars"
    by code_simp
  ultimately show ?thesis
    using unsupported_command_only_in_parse_command
      [where c = "CHR ''Z''" and d = "''Z''" and pos = 0 and lc = None and acc = "[]"
         and d' = "''Z''" and letter = "CHR ''Z''" and offset = 0]
    by blast
qed

text \<open>
  The claim as stated fails on its own example: on \<open>Z\<close> the parse does not end in
  \<open>UnsupportedCommand\<close>, and neither does it where \<open>L\<close> stands as a command behind
  a complete \<open>M\<close> command.
\<close>

theorem unsupported_letter_counterexample:
  "parse_d_property ''Z'' = Inl IndexError \<and>
   parse_d_property ''M0 0L1 1'' = Inl (UnexpectedChar CHR ''1'' 5)"
  by code_simp

subsection \<open>Where the error reports miss\<close>

text \<open>
  Claim C5. When the driver reads a character \<open>c\<close> that is neither a command letter nor
  the start of a number with a last command set, the claim wants an unexpected-character
  error that names \<open>c\<close> and the offset of \<open>c\<close>. The driver has already advanced the
  cursor behind \<open>c\<close> when it calls \<open>raise_unexpected_char\<close> (lemma
  \<open>driver_else_branch\<close>): on \<open>L1\<close> the error names the character \<open>1\<close> at offset 1,
  not \<open>L\<close> at offset 0, and on \<open>L\<close>, where \<open>c\<close> is the last character, building the
  message raises \<open>IndexError\<close>.
\<close>

theorem driver_reports_character_behind:
  "parse_d_property ''L1'' = Inl (UnexpectedChar CHR ''1'' 1) \<and>
   parse_d_property ''L'' = Inl IndexError"
  by code_simp

text \<open>
  What \<open>parse_number\<close> does behind a minus sign and behind a decimal point: a
  character that is no digit is reported with its own position; at the end of the
  string the unguarded read \<open>d[pos]\<close> raises \<open>IndexError\<close>.
\<close>

lemma minus_sign_numberic: "minus_sign \<in> set numberic_chars"
  by (simp add: numberic_chars_def)

lemma digit_numberic: "c \<in> set numbers \<Longrightarrow> c \<in> set numberic_chars"
  by (simp add: numberic_chars_def)

lemma parse_number_at_end:
  assumes "length d \<le> skip_seps d pos"
  shows "parse_number d pos = Inl (UnexpectedEndOfData (skip_seps d pos))"
  using assms by (simp add: parse_number_def Let_def raise_unexpected_end_of_data_def)

lemma parse_number_sign_then_no_digit:
  assumes "skip_seps d pos = s" and "s < length d" and "d ! s = minus_sign"
    and "s + 1 < length d" and "d ! (s + 1) \<notin> set numbers"
  shows "parse_number d pos = Inl (UnexpectedChar (d ! (s + 1)) (s + 1))"
  using assms
  by (simp add: parse_number_def Let_def raise_unexpected_char_def minus_sign_numberic)

lemma parse_number_sign_then_end:
  assumes "skip_seps d pos = s" and "s < length d" and "d ! s = minus_sign"
    and "s + 1 = length d"
  shows "parse_number d pos = Inl IndexError"
  using assms
  by (simp add: parse_number_def Let_def minus_sign_numberic)

lemma parse_number_point_then_no_digit:
  assumes "skip_seps d pos = s" and "s < length d" and "d ! s \<in> set numbers"
    and "skip_numbers d s = p" and "p < length d" and "d ! p = decimal_point"
    and "p + 1 < length d" and "d ! (p + 1) \<notin> set numbers"
  shows "parse_number d pos = Inl (UnexpectedChar (d ! (p + 1)) (p + 1))"
proof -
  from assms(3) have "d ! s \<noteq> minus_sign" using minus_sign_no_digit by auto
  with assms show ?thesis
    by (simp add: parse_number_def Let_def raise_unexpected_char_def digit_numberic)
qed

lemma parse_number_point_then_end:
  assumes "skip_seps d pos = s" and "s < length d" and "d ! s \<in> set numbers"
    and "skip_numbers d s = p" and "p < length d" and "d ! p = decimal_point"
    and "p + 1 = length d"
  shows "parse_number d pos = Inl IndexError"
proof -
  from assms(3) have "d ! s \<noteq> minus_sign" using minus_sign_no_digit by auto
  with assms show ?thesis
    by (simp add: parse_number_def Let_def digit_numberic)
qed

text \<open>
  Claim C6. A minus sign or a decimal point that no digit follows should make
  \<open>parse_number\<close> fail with an unexpected-character error and with no other failure,
  also where the input ends behind the sign or the point. Where a character follows,
  it does (the lemmas above); where the input ends there, as in \<open>-\<close> and \<open>1.\<close>, the
  failure is Python's \<open>IndexError\<close>.
\<close>

theorem parse_number_end_behind_sign_or_point:
  "parse_number ''-'' 0 = Inl IndexError \<and> parse_number ''1.'' 0 = Inl IndexError"
  by code_simp

text \<open>
  \<open>EmptyInput\<close> is raised for the empty string and for no other input, and where the
  input ends in front of a number the scanners raise the end-of-data exception.
\<close>

lemma empty_input_iff: "parse_d_property d = Inl EmptyInput \<longleftrightarrow> d = []"
proof
  assume "parse_d_property d = Inl EmptyInput"
  then show "d = []" by (auto dest: parse_d_property_error)
next
  assume "d = []"
  then show "parse_d_property d = Inl EmptyInput" by (simp add: parse_d_property_def)
qed

lemma truncated_after_one_number: "parse_d_property ''M1'' = Inl (UnexpectedEndOfData 2)"
  by code_simp

text \<open>
  Claim C7. \<open>EmptyInput\<close> exactly for the empty string, and the end-of-data error
  where the input is exhausted while the grammar still requires characters, as in
  \<open>M1\<close>. The first and the last part hold (lemmas \<open>empty_input_iff\<close>,
  \<open>truncated_after_one_number\<close>, \<open>parse_number_at_end\<close>); but where the input ends
  inside a number, behind the minus sign of \<open>M-\<close> or the decimal point of \<open>M1.\<close>,
  the failure is \<open>IndexError\<close>, not the end-of-data error.
\<close>

theorem end_of_input_inside_number:
  "parse_d_property ''M-'' = Inl IndexError \<and> parse_d_property ''M1.'' = Inl IndexError"
  by code_simp

subsection \<open>Formatting a value and parsing it again\<close>

text \<open>The model of \<open>str\<close> on some values, each as Python prints it.\<close>

lemma py_str_examples:
  "py_str (IntV 0) = ''0'' \<and>
   py_str (IntV (- 120)) = ''-120'' \<and>
   py_str (FloatV (3 / 2)) = ''1.5'' \<and>
   py_str (FloatV (- 9 / 4)) = ''-2.25'' \<and>
   py_str (FloatV 100) = ''100.0'' \<and>
   py_str (FloatV 0) = ''0.0'' \<and>
   py_str (FloatV (1 / 10000)) = ''0.0001'' \<and>
   py_str (FloatV (3 / 20000000)) = ''1.5e-07'' \<and>
   py_str (FloatV 1000000000000000) = ''1000000000000000.0'' \<and>
   py_str (FloatV 10000000000000000) = ''1e+16''"
  by code_simp

lemma digit_char_digit:
  assumes "0 \<le> k" and "k < 10"
  shows "digit_char k \<in> set numbers \<and> digit_val (digit_char k) = nat k"
proof -
  from assms have "k = 0 \<or> k = 1 \<or> k = 2 \<or> k = 3 \<or> k = 4 \<or> k = 5 \<or> k = 6 \<or> k = 7 \<or>
      k = 8 \<or> k = 9"
    by arith
  then show ?thesis
    by (elim disjE) (simp_all add: digit_char_def numbers_def digit_val_def)
qed

lemma digits_val_snoc: "digits_val (xs @ [c]) = 10 * digits_val xs + digit_val c"
  by (simp add: digits_val_def)

lemma digits_of_digits:
  assumes "0 \<le> n"
  shows "all_digits (digits_of n) \<and> digits_of n \<noteq> [] \<and> digits_val (digits_of n) = nat n"
  using assms
proof (induction n rule: digits_of.induct)
  case (1 n)
  show ?case
  proof (cases "n < 10")
    case True
    with "1.prems" digit_char_digit [of n] show ?thesis
      by (simp add: digits_of.simps [of n] all_digits_def digits_val_def)
  next
    case False
    with "1.prems" have q: "0 \<le> n div 10" by simp
    from "1.IH" [OF False q]
    have ih: "all_digits (digits_of (n div 10))" "digits_val (digits_of (n div 10)) = nat (n div 10)"
      by simp_all
    have r: "0 \<le> n mod 10" "n mod 10 < 10" by simp_all
    from digit_char_digit [OF r]
    have last: "digit_char (n mod 10) \<in> set numbers"
      "digit_val (digit_char (n mod 10)) = nat (n mod 10)"
      by simp_all
    have "nat n = nat (10 * (n div 10) + n mod 10)" by simp
    also have "\<dots> = nat (10 * (n div 10)) + nat (n mod 10)"
      using q by (intro nat_add_distrib) simp_all
    also have "nat (10 * (n div 10)) = 10 * nat (n div 10)" by (simp add: nat_mult_distrib)
    finally have "nat n = 10 * nat (n div 10) + nat (n mod 10)" .
    with False ih last show ?thesis
      by (simp add: digits_of.simps [of n] all_digits_def digits_val_snoc)
  qed
qed

lemma skip_numbers_all_digits:
  assumes "\<forall>i. pos \<le> i \<and> i < length d \<longrightarrow> d ! i \<in> set numbers" and "pos \<le> length d"
  shows "skip_numbers d pos = length d"
  using assms
proof (induction d pos rule: skip_numbers.induct)
  case (1 d pos)
  show ?case
  proof (cases "pos < length d")
    case True
    with "1.prems" have dig: "d ! pos \<in> set numbers" by simp
    from True "1.prems" have "skip_numbers d (pos + 1) = length d"
      by (intro "1.IH" [OF True dig]) auto
    with True dig show ?thesis by (simp add: skip_numbers.simps [of d pos])
  next
    case False
    with "1.prems" have "pos = length d" by simp
    then show ?thesis by (simp add: skip_numbers.simps [of d "length d"])
  qed
qed

lemma digit_no_separator: "c \<in> set numbers \<Longrightarrow> c \<notin> set sep_chars"
  by (auto simp: numbers_def sep_chars_def)

lemma minus_sign_no_separator: "minus_sign \<notin> set sep_chars"
  by (simp add: minus_sign_def sep_chars_def)

lemma skip_seps_stays: "pos < length d \<Longrightarrow> d ! pos \<notin> set sep_chars \<Longrightarrow> skip_seps d pos = pos"
  by (simp add: skip_seps.simps [of d pos])

lemma slice_all: "slice d 0 (length d) = d"
  by (simp add: slice_def)

lemma parse_number_digits:
  assumes "all_digits ds" and "ds \<noteq> []"
  shows "parse_number ds 0 = Inr (length ds, IntV (int (digits_val ds)))"
proof -
  from assms have len: "0 < length ds" by simp
  from assms have first: "ds ! 0 \<in> set numbers"
    by (cases ds) (simp_all add: all_digits_def)
  then have nominus: "ds ! 0 \<noteq> minus_sign" using minus_sign_no_digit by auto
  from first have hd: "hd ds \<noteq> minus_sign" using assms(2) minus_sign_no_digit
    by (cases ds) auto
  have s: "skip_seps ds 0 = 0" using len first by (simp add: skip_seps_stays digit_no_separator)
  have "\<forall>i. 0 \<le> i \<and> i < length ds \<longrightarrow> ds ! i \<in> set numbers"
    using assms(1) by (simp add: all_digits_def list_all_length)
  then have n: "skip_numbers ds 0 = length ds" by (rule skip_numbers_all_digits) simp
  have v: "py_int ds = Inr (int (digits_val ds))"
    using assms hd by (simp add: py_int_def)
  show ?thesis
    using len first nominus
    by (simp add: parse_number_def Let_def s n v slice_all digit_numberic)
qed

lemma parse_number_minus_digits:
  assumes "all_digits ds" and "ds \<noteq> []"
  shows "parse_number (minus_sign # ds) 0 = Inr (Suc (length ds), IntV (- int (digits_val ds)))"
proof -
  let ?d = "minus_sign # ds"
  from assms have first: "ds ! 0 \<in> set numbers"
    by (cases ds) (simp_all add: all_digits_def)
  have s: "skip_seps ?d 0 = 0" by (simp add: skip_seps_stays minus_sign_no_separator)
  have "\<forall>i. Suc 0 \<le> i \<and> i < length ?d \<longrightarrow> ?d ! i \<in> set numbers"
  proof (intro allI impI)
    fix i assume "Suc 0 \<le> i \<and> i < length ?d"
    then obtain j where "i = Suc j" "j < length ds" by (cases i) auto
    with assms(1) show "?d ! i \<in> set numbers" by (simp add: all_digits_def list_all_length)
  qed
  then have "skip_numbers ?d (Suc 0) = length ?d" by (rule skip_numbers_all_digits) simp
  then have n: "skip_numbers ?d (Suc 0) = Suc (length ds)" by simp
  have v: "py_int ?d = Inr (- int (digits_val ds))"
    using assms by (simp add: py_int_def)
  have sl: "slice ?d 0 (Suc (length ds)) = ?d" using slice_all [of ?d] by simp
  show ?thesis
    using first assms(2)
    by (simp add: parse_number_def Let_def s n v sl minus_sign_numberic)
qed

text \<open>
  Claim C9, as the code has it. For every integer \<open>n\<close>, and so for every integer value
  a successful call of \<open>parse_number\<close> returns, formatting it with \<open>str\<close> and parsing
  that text with \<open>parse_number\<close> from position 0 succeeds, consumes the whole text and
  yields the integer \<open>n\<close> again: integers stay integers, with the same value. Nothing
  of the kind is stated for fractional values.
\<close>

theorem integer_round_trip:
  "parse_number (py_str (IntV n)) 0 = Inr (length (py_str (IntV n)), IntV n)"
proof (cases "n < 0")
  case True
  then have "0 \<le> - n" by simp
  from digits_of_digits [OF this]
  have d: "all_digits (digits_of (- n))" "digits_of (- n) \<noteq> []"
    "digits_val (digits_of (- n)) = nat (- n)"
    by simp_all
  from True have "py_str (IntV n) = minus_sign # digits_of (- n)"
    by (simp add: py_str_def py_str_int_def minus_sign_def)
  with parse_number_minus_digits [OF d(1,2)] d(3) True show ?thesis by simp
next
  case False
  then have "0 \<le> n" by simp
  from digits_of_digits [OF this]
  have d: "all_digits (digits_of n)" "digits_of n \<noteq> []" "digits_val (digits_of n) = nat n"
    by simp_all
  from False have "py_str (IntV n) = digits_of n" by (simp add: py_str_def py_str_int_def)
  with parse_number_digits [OF d(1,2)] d(3) \<open>0 \<le> n\<close> show ?thesis by simp
qed

theorem integer_round_trip_witness:
  "py_str (IntV (- 20)) = ''-20'' \<and> parse_number ''-20'' 0 = Inr (3, IntV (- 20))"
proof -
  have a: "py_str (IntV (- 20)) = ''-20''" by code_simp
  from integer_round_trip [of "- 20"] a show ?thesis by simp
qed

text \<open>
  The claim as stated, for every value, fails on fractional values: \<open>parse_number\<close>
  reads \<open>0.00001\<close> as the fractional value 1/100000, \<open>str\<close> writes that value as
  \<open>1e-05\<close>, and \<open>parse_number\<close> reads \<open>1e-05\<close> as the integer 1, stopping in front of
  the letter \<open>e\<close>: the result is neither equal to the value nor of its kind.
\<close>

theorem fractional_round_trip_counterexample:
  "parse_number ''0.00001'' 0 = Inr (7, FloatV (1 / 100000)) \<and>
   py_str (FloatV (1 / 100000)) = ''1e-05'' \<and>
   parse_number ''1e-05'' 0 = Inr (1, IntV 1)"
  by code_simp

end
